theory Spec2Isabelle
  imports Main "HOL-Library.Word" "HOL-Library.Sublist" "HOL-Library.Multiset"
    "HOL-Library.State_Monad"
begin

unbundle bit_operations_syntax

section \<open>The consistent-hashing ring of main.go\<close>

text \<open>
  A shallow embedding of \<^verbatim>\<open>main.go\<close>: the hash function \<^verbatim>\<open>hashKey\<close>, the struct
  \<^verbatim>\<open>ConsistentHash\<close> and its methods \<^verbatim>\<open>AddNode\<close>, \<^verbatim>\<open>RemoveNode\<close> and \<^verbatim>\<open>GetNode\<close>.
  The methods mutate the receiver; here they take the receiver's state and return the
  new one. \<^verbatim>\<open>GetNode\<close> is given twice: as the function from the state to the string
  returned, and as the method acting on the receiver.

  The code calls four functions of the Go standard library. \<^verbatim>\<open>crypto/sha1\<close> is a
  parameter \<open>sha1\<close> of the model (the digest of a string, as a list of bytes;
  \<^verbatim>\<open>Sum\<close> always returns 20 of them), so every property below holds whatever the
  digest function is. \<^verbatim>\<open>strconv.Itoa\<close>, \<^verbatim>\<open>sort.Search\<close> and \<^verbatim>\<open>sort.Slice\<close>
  are written out.

  A Go map read at a key it does not hold yields the zero value, and \<^verbatim>\<open>GetNode\<close>
  returns the empty string for a ring with no position: the empty string is both a
  possible node name and the answer that no node was found, as in the code.
\<close>

subsection \<open>Data\<close>

type_synonym byte = "8 word"
type_synonym uint32 = "32 word"
type_synonym digest = "string \<Rightarrow> byte list"

record ConsistentHash =
  replicas :: int
  hashRing :: "uint32 list"
  nodeMap :: "uint32 \<rightharpoonup> string"
  actualNodes :: "string \<rightharpoonup> bool"

text \<open>Reading a Go map of strings at a key it does not hold yields the empty string.\<close>

definition lookup :: "(uint32 \<rightharpoonup> string) \<Rightarrow> uint32 \<Rightarrow> string" where
  "lookup m h = (case m h of None \<Rightarrow> '''' | Some node \<Rightarrow> node)"

subsection \<open>hashKey\<close>

text \<open>
  \<^verbatim>\<open>uint32(hashBytes[0])<<24 | uint32(hashBytes[1])<<16 | uint32(hashBytes[2])<<8 | uint32(hashBytes[3])\<close>.
  The digest of \<^verbatim>\<open>crypto/sha1\<close> has 20 bytes, so the four reads are in range.
\<close>

definition hashKey :: "digest \<Rightarrow> string \<Rightarrow> uint32" where
  "hashKey sha1 key =
     (let hashBytes = sha1 key
      in push_bit 24 (ucast (hashBytes ! 0)) OR push_bit 16 (ucast (hashBytes ! 1))
         OR push_bit 8 (ucast (hashBytes ! 2)) OR ucast (hashBytes ! 3))"

subsection \<open>strconv.Itoa\<close>

definition digit :: "nat \<Rightarrow> char" where
  "digit d = ''0123456789'' ! d"

function utoa :: "nat \<Rightarrow> string" where
  "utoa n = (if n < 10 then [digit n] else utoa (n div 10) @ [digit (n mod 10)])"
  by pat_completeness auto
termination
  by (relation "measure id") auto

declare utoa.simps [simp del]

definition Itoa :: "int \<Rightarrow> string" where
  "Itoa i = (if i < 0 then CHR ''-'' # utoa (nat (- i)) else utoa (nat i))"

subsection \<open>NewConsistentHash\<close>

definition NewConsistentHash :: "int \<Rightarrow> ConsistentHash" where
  "NewConsistentHash r =
     \<lparr>replicas = r, hashRing = [], nodeMap = Map.empty, actualNodes = Map.empty\<rparr>"

subsection \<open>AddNode\<close>

text \<open>
  The loop \<^verbatim>\<open>for i := 0; i < ch.replicas; i++\<close>, on the pair of the position list and
  the owner map: it appends the hash of \<^verbatim>\<open>node + strconv.Itoa(i)\<close> and stores the node
  under it.
\<close>

function AddNode_loop ::
  "digest \<Rightarrow> string \<Rightarrow> int \<Rightarrow> int \<Rightarrow> uint32 list \<times> (uint32 \<rightharpoonup> string)
     \<Rightarrow> uint32 list \<times> (uint32 \<rightharpoonup> string)" where
  "AddNode_loop sha1 node n i (ring, nm) =
     (if i < n
      then (let hash = hashKey sha1 (node @ Itoa i)
            in AddNode_loop sha1 node n (i + 1) (ring @ [hash], nm(hash \<mapsto> node)))
      else (ring, nm))"
  by pat_completeness auto
termination
  by (relation "measure (\<lambda>(sha1, node, n, i, acc). nat (n - i))") auto

declare AddNode_loop.simps [simp del]

text \<open>
  \<^verbatim>\<open>sort.Slice\<close> with the order \<open><\<close> of \<^verbatim>\<open>uint32\<close> leaves the ascending arrangement of
  the values, which is \<^const>\<open>sort\<close> of the list whatever the algorithm.
\<close>

definition AddNode :: "digest \<Rightarrow> ConsistentHash \<Rightarrow> string \<Rightarrow> ConsistentHash" where
  "AddNode sha1 ch node =
     (if node \<in> dom (actualNodes ch) then ch
      else (let (ring, nm) = AddNode_loop sha1 node (replicas ch) 0 (hashRing ch, nodeMap ch)
            in ch\<lparr>hashRing := sort ring, nodeMap := nm,
                  actualNodes := (actualNodes ch)(node \<mapsto> True)\<rparr>))"

subsection \<open>RemoveNode\<close>

text \<open>
  The loop \<^verbatim>\<open>for _, hash := range ch.hashRing\<close>, on the pair of \<^verbatim>\<open>newRing\<close> and the
  owner map: a position whose current owner differs from the node is kept, any other is
  deleted from the map.
\<close>

fun RemoveNode_loop ::
  "string \<Rightarrow> uint32 list \<Rightarrow> uint32 list \<times> (uint32 \<rightharpoonup> string)
     \<Rightarrow> uint32 list \<times> (uint32 \<rightharpoonup> string)" where
  "RemoveNode_loop node [] (newRing, nm) = (newRing, nm)"
| "RemoveNode_loop node (hash # rest) (newRing, nm) =
     (if lookup nm hash \<noteq> node
      then RemoveNode_loop node rest (newRing @ [hash], nm)
      else RemoveNode_loop node rest (newRing, nm(hash := None)))"

definition RemoveNode :: "ConsistentHash \<Rightarrow> string \<Rightarrow> ConsistentHash" where
  "RemoveNode ch node =
     (if node \<notin> dom (actualNodes ch) then ch
      else (let (newRing, nm) = RemoveNode_loop node (hashRing ch) ([], nodeMap ch)
            in ch\<lparr>hashRing := newRing, nodeMap := nm,
                  actualNodes := (actualNodes ch)(node := None)\<rparr>))"

subsection \<open>GetNode\<close>

text \<open>
  \<^verbatim>\<open>sort.Search(n, f)\<close>: the binary search of the standard library, from \<open>i = 0\<close> and
  \<open>j = n\<close>, with the midpoint \<^verbatim>\<open>int(uint(i+j) >> 1)\<close>.
\<close>

function Search_loop :: "(nat \<Rightarrow> bool) \<Rightarrow> nat \<Rightarrow> nat \<Rightarrow> nat" where
  "Search_loop f i j =
     (if i < j
      then (let h = (i + j) div 2
            in if \<not> f h then Search_loop f (h + 1) j else Search_loop f i h)
      else i)"
  by pat_completeness auto
termination
  by (relation "measure (\<lambda>(f, i, j). j - i)") auto

declare Search_loop.simps [simp del]

definition Search :: "nat \<Rightarrow> (nat \<Rightarrow> bool) \<Rightarrow> nat" where
  "Search n f = Search_loop f 0 n"

definition GetNode :: "digest \<Rightarrow> ConsistentHash \<Rightarrow> string \<Rightarrow> string" where
  "GetNode sha1 ch key =
     (if length (hashRing ch) = 0 then ''''
      else (let hash = hashKey sha1 key;
                idx = Search (length (hashRing ch)) (\<lambda>i. hashRing ch ! i \<ge> hash);
                idx = (if idx = length (hashRing ch) then 0 else idx)
            in lookup (nodeMap ch) (hashRing ch ! idx)))"

text \<open>
  The method has a pointer receiver, so a call could change the struct. This is its body,
  statement by statement, as a computation on the state of the receiver that returns the
  result and the state the call leaves: each read of a field of \<^verbatim>\<open>ch\<close> reads the
  current state, and an assignment to a field would be an update of it.
\<close>

definition GetNode_method :: "digest \<Rightarrow> string \<Rightarrow> (ConsistentHash, string) state" where
  "GetNode_method sha1 key = do {
     ch \<leftarrow> State_Monad.get;
     if length (hashRing ch) = 0 then State_Monad.return ''''
     else do {
       let hash = hashKey sha1 key;
       ch \<leftarrow> State_Monad.get;
       let idx = Search (length (hashRing ch)) (\<lambda>i. hashRing ch ! i \<ge> hash);
       ch \<leftarrow> State_Monad.get;
       let idx = (if idx = length (hashRing ch) then 0 else idx);
       ch \<leftarrow> State_Monad.get;
       State_Monad.return (lookup (nodeMap ch) (hashRing ch ! idx))
     }
   }"

subsection \<open>The states a caller can reach\<close>

inductive reachable :: "digest \<Rightarrow> ConsistentHash \<Rightarrow> bool" for sha1 :: digest where
  new: "reachable sha1 (NewConsistentHash r)"
| add: "reachable sha1 ch \<Longrightarrow> reachable sha1 (AddNode sha1 ch node)"
| remove: "reachable sha1 ch \<Longrightarrow> reachable sha1 (RemoveNode ch node)"

section \<open>Notions the properties are stated with\<close>

text \<open>
  The clockwise successor of a hash on a ring, in the words of the specification: the
  smallest position that is greater than or equal to the hash and, when there is none, the
  smallest position of all.
\<close>

definition successor :: "uint32 list \<Rightarrow> uint32 \<Rightarrow> uint32" where
  "successor ring hash =
     (let later = filter (\<lambda>p. hash \<le> p) ring
      in if later = [] then Min (set ring) else Min (set later))"

text \<open>
  The virtual positions of a node: the hash of the node identifier followed by the decimal
  form of \<open>i\<close>, for \<open>i\<close> from \<open>0\<close> to \<open>n - 1\<close>.
\<close>

definition positions :: "digest \<Rightarrow> string \<Rightarrow> int \<Rightarrow> uint32 list" where
  "positions sha1 node n = map (\<lambda>i. hashKey sha1 (node @ Itoa i)) [0..n - 1]"

text \<open>
  What every reachable state satisfies: the position list is ascending, the owner map holds
  no position that is not on the list, and every owner it records is a member.
\<close>

definition ring_inv :: "ConsistentHash \<Rightarrow> bool" where
  "ring_inv ch \<longleftrightarrow>
     sorted (hashRing ch) \<and> dom (nodeMap ch) \<subseteq> set (hashRing ch)
     \<and> ran (nodeMap ch) \<subseteq> dom (actualNodes ch)"

section \<open>Concrete rings\<close>

text \<open>
  The SHA-1 digests of the strings that the concrete rings below hash, as \<^verbatim>\<open>crypto/sha1\<close>
  computes them: the virtual positions of the nodes \<^verbatim>\<open>ServerA\<close>, \<^verbatim>\<open>ServerB\<close> and
  \<^verbatim>\<open>ServerC\<close> of \<^verbatim>\<open>main\<close>, its four keys, a fifth key that hashes beyond every
  position, the one virtual position of the node with the empty name, and those of two
  nodes \<^verbatim>\<open>n58680\<close> and \<^verbatim>\<open>n73434\<close>, whose digests agree on the first four bytes. Any
  other string gets twenty zero bytes, which no property below depends on.
\<close>

definition sha1_sample :: digest where
  "sha1_sample s =
     (if s = ''ServerA0'' then
        [0xBC, 0x7B, 0xD2, 0x3B, 0x31, 0x22, 0x0E, 0xB7, 0x27, 0xD0,
         0xC5, 0x1E, 0x77, 0x8B, 0xF9, 0x85, 0x48, 0x3A, 0x37, 0xDB]
      else if s = ''ServerA1'' then
        [0x9F, 0xC4, 0xEB, 0x56, 0x94, 0x6C, 0xF1, 0x45, 0x04, 0x22,
         0x03, 0x61, 0x68, 0xDD, 0x4B, 0x18, 0xAD, 0xFA, 0xD0, 0xB8]
      else if s = ''ServerA2'' then
        [0x00, 0xDA, 0x6E, 0x5D, 0x89, 0xD8, 0x8C, 0xD1, 0xFF, 0x8E,
         0xE7, 0x1F, 0x35, 0x40, 0x62, 0x69, 0x4A, 0x16, 0x57, 0xC8]
      else if s = ''ServerB0'' then
        [0x91, 0x10, 0x2F, 0xC6, 0xE4, 0xA2, 0x32, 0xDF, 0x06, 0x5C,
         0xAB, 0x89, 0x44, 0x37, 0x49, 0xF5, 0xAE, 0xAD, 0xAC, 0x97]
      else if s = ''ServerB1'' then
        [0x50, 0xBE, 0x59, 0xDA, 0x63, 0x54, 0x15, 0xBB, 0x24, 0xFF,
         0x08, 0xC6, 0xD7, 0xC3, 0x8E, 0xFE, 0x28, 0xC9, 0xC1, 0xC1]
      else if s = ''ServerB2'' then
        [0xD9, 0x20, 0xAB, 0xA9, 0x58, 0x16, 0x13, 0xE8, 0x6E, 0xAF,
         0x07, 0x0B, 0xC5, 0x73, 0xFB, 0xF0, 0x40, 0x05, 0xA4, 0xE5]
      else if s = ''ServerC0'' then
        [0x1A, 0x59, 0x35, 0x84, 0x38, 0xFB, 0xC7, 0x9B, 0xEE, 0x9E,
         0xBE, 0x35, 0x73, 0xDD, 0x2F, 0x24, 0x5B, 0x3C, 0x52, 0x0B]
      else if s = ''ServerC1'' then
        [0x24, 0x92, 0x5D, 0x2A, 0x2D, 0xC5, 0xCE, 0xD9, 0x16, 0xD7,
         0x27, 0x8A, 0xBB, 0x54, 0x8A, 0x9B, 0x57, 0x04, 0x68, 0xCF]
      else if s = ''ServerC2'' then
        [0xE2, 0x00, 0xBE, 0x4D, 0xED, 0x1C, 0x0D, 0xAE, 0xBB, 0x02,
         0xE4, 0x99, 0x3C, 0xD7, 0xC8, 0x59, 0x0E, 0x0E, 0x49, 0x30]
      else if s = ''0'' then
        [0xB6, 0x58, 0x9F, 0xC6, 0xAB, 0x0D, 0xC8, 0x2C, 0xF1, 0x20,
         0x99, 0xD1, 0xC2, 0xD4, 0x0A, 0xB9, 0x94, 0xE8, 0x41, 0x0C]
      else if s = ''n586800'' then
        [0x9B, 0x4A, 0x27, 0x08, 0xDB, 0xA5, 0xDA, 0x5B, 0xF0, 0x69,
         0x6E, 0xC1, 0x5E, 0x05, 0xB8, 0x6C, 0xBF, 0xB6, 0xA5, 0xA2]
      else if s = ''n734340'' then
        [0x9B, 0x4A, 0x27, 0x08, 0x94, 0x24, 0x03, 0xA8, 0x7F, 0x95,
         0xBA, 0x9E, 0xFF, 0x99, 0x8E, 0x9E, 0x76, 0x4B, 0xA7, 0x6C]
      else if s = ''CellID_12345'' then
        [0x09, 0x0F, 0xF9, 0x58, 0x83, 0x42, 0x61, 0x77, 0x6C, 0x50,
         0xAF, 0x7C, 0xA9, 0xC1, 0xEA, 0x6F, 0xDF, 0xAA, 0x83, 0x89]
      else if s = ''CellID_67890'' then
        [0x14, 0x54, 0x8E, 0xDD, 0x1A, 0xD9, 0x9A, 0xF7, 0x03, 0x13,
         0xDE, 0x27, 0x33, 0x96, 0x1D, 0x66, 0x0F, 0xB3, 0xF9, 0xB4]
      else if s = ''CellID_54321'' then
        [0x24, 0x9A, 0xEB, 0xA0, 0x13, 0x91, 0x9B, 0xA4, 0x8E, 0x46,
         0xE8, 0x4B, 0x28, 0xFC, 0x51, 0x9D, 0x3E, 0x32, 0x07, 0x14]
      else if s = ''CellID_99999'' then
        [0xB7, 0x45, 0x3C, 0x13, 0x8B, 0x16, 0x59, 0x18, 0x71, 0x89,
         0xE2, 0x84, 0x68, 0xA3, 0xB1, 0x34, 0xEC, 0x93, 0x55, 0x70]
      else if s = ''CellID_15'' then
        [0xE6, 0xC5, 0xCE, 0x60, 0x26, 0x66, 0x6B, 0xDC, 0x5C, 0x29,
         0x07, 0x23, 0x77, 0xDC, 0x36, 0xBA, 0x1C, 0x92, 0xD0, 0xC7]
      else replicate 20 0)"

text \<open>The ring of \<^verbatim>\<open>main\<close>: three replicas, and the three servers added in order.\<close>

definition demo :: ConsistentHash where
  "demo = AddNode sha1_sample (AddNode sha1_sample (AddNode sha1_sample
            (NewConsistentHash 3) ''ServerA'') ''ServerB'') ''ServerC''"

text \<open>A ring with one replica and the node whose name is the empty string.\<close>

definition unnamed :: ConsistentHash where
  "unnamed = AddNode sha1_sample (NewConsistentHash 1) ''''"

text \<open>
  A ring with one replica and two nodes whose single positions coincide, and the same ring
  after the second node is removed again.
\<close>

definition collided :: ConsistentHash where
  "collided = AddNode sha1_sample (AddNode sha1_sample (NewConsistentHash 1) ''n58680'') ''n73434''"

definition orphaned :: ConsistentHash where
  "orphaned = RemoveNode collided ''n73434''"

text \<open>A ring with one replica, \<^verbatim>\<open>ServerA\<close> and the node whose name is the empty string.\<close>

definition mixed :: ConsistentHash where
  "mixed = AddNode sha1_sample (AddNode sha1_sample (NewConsistentHash 1) ''ServerA'') ''''"

section \<open>The loops\<close>

subsection \<open>The owner map\<close>

lemma lookup_upd_same: "lookup (m(h \<mapsto> node)) h = node"
  by (simp add: lookup_def)

lemma lookup_del_same: "lookup (m(h := None)) h = ''''"
  by (simp add: lookup_def)

lemma lookup_other: "h' \<noteq> h \<Longrightarrow> lookup (m(h := v)) h' = lookup m h'"
  by (simp add: lookup_def)

subsection \<open>The loop of AddNode\<close>

lemma AddNode_loop_eq:
  "AddNode_loop sha1 node n i (ring, nm) =
     (ring @ map (\<lambda>k. hashKey sha1 (node @ Itoa k)) [i..n - 1],
      \<lambda>p. if p \<in> (\<lambda>k. hashKey sha1 (node @ Itoa k)) ` {i..n - 1} then Some node else nm p)"
proof (induction sha1 node n i "(ring, nm)" arbitrary: ring nm rule: AddNode_loop.induct)
  case (1 sha1 node n i ring nm)
  show ?case
  proof (cases "i < n")
    case True
    then have up: "[i..n - 1] = i # [i + 1..n - 1]" and st: "{i..n - 1} = insert i {i + 1..n - 1}"
      by (auto simp: upto_rec1)
    show ?thesis
      using True "1.hyps" [OF True refl]
      by (subst AddNode_loop.simps) (auto simp: up st Let_def fun_eq_iff)
  next
    case False
    then show ?thesis by (subst AddNode_loop.simps) simp
  qed
qed

lemma AddNode_new:
  assumes "node \<notin> dom (actualNodes ch)"
  shows "AddNode sha1 ch node =
           ch\<lparr>hashRing := sort (hashRing ch @ positions sha1 node (replicas ch)),
              nodeMap := (\<lambda>p. if p \<in> set (positions sha1 node (replicas ch)) then Some node
                               else nodeMap ch p),
              actualNodes := (actualNodes ch)(node \<mapsto> True)\<rparr>"
  using assms by (simp add: AddNode_def AddNode_loop_eq positions_def)

lemma AddNode_old: "node \<in> dom (actualNodes ch) \<Longrightarrow> AddNode sha1 ch node = ch"
  by (simp add: AddNode_def)

subsection \<open>The loop of RemoveNode\<close>

text \<open>
  The owner map after the loop lacks exactly the positions of the list that the node owned
  (in Go's reading of the map, where a missing entry reads as the empty string).
\<close>

lemma RemoveNode_loop_map:
  "snd (RemoveNode_loop node rest (acc, nm)) =
     (\<lambda>h. if h \<in> set rest \<and> lookup nm h = node then None else nm h)"
proof (induction rest arbitrary: acc nm)
  case Nil
  then show ?case by simp
next
  case (Cons hash rest)
  show ?case
    by (auto simp: Cons.IH fun_eq_iff lookup_other lookup_def split: option.splits)
qed

text \<open>
  The positions kept are a subsequence of the list, and every position owned by another
  node is among them.
\<close>

lemma RemoveNode_loop_subseq:
  "\<exists>ys. fst (RemoveNode_loop node rest (acc, nm)) = acc @ ys \<and> subseq ys rest
        \<and> set (filter (\<lambda>h. lookup nm h \<noteq> node) rest) \<subseteq> set ys"
proof (induction rest arbitrary: acc nm)
  case Nil
  then show ?case by simp
next
  case (Cons hash rest)
  show ?case
  proof (cases "lookup nm hash \<noteq> node")
    case True
    obtain ys where ys: "fst (RemoveNode_loop node rest (acc @ [hash], nm)) = (acc @ [hash]) @ ys"
      "subseq ys rest" "set (filter (\<lambda>h. lookup nm h \<noteq> node) rest) \<subseteq> set ys"
      using Cons.IH [of "acc @ [hash]" nm] by blast
    show ?thesis
      using True ys by (intro exI [of _ "hash # ys"]) auto
  next
    case False
    obtain ys where ys: "fst (RemoveNode_loop node rest (acc, nm(hash := None))) = acc @ ys"
      "subseq ys rest"
      "set (filter (\<lambda>h. lookup (nm(hash := None)) h \<noteq> node) rest) \<subseteq> set ys"
      using Cons.IH [of acc "nm(hash := None)"] by blast
    have "set (filter (\<lambda>h. lookup nm h \<noteq> node) rest) \<subseteq> set ys"
    proof
      fix h assume h: "h \<in> set (filter (\<lambda>h. lookup nm h \<noteq> node) rest)"
      then have "h \<noteq> hash" using False by auto
      then have "lookup (nm(hash := None)) h = lookup nm h" by (rule lookup_other)
      with h ys(3) show "h \<in> set ys" by auto
    qed
    then show ?thesis
      using False ys by (intro exI [of _ ys]) auto
  qed
qed

text \<open>
  When the node's positions occur once each on the list (or the node is the empty string,
  which a deleted entry still reads as), the loop is a filter.
\<close>

lemma RemoveNode_loop_filter:
  "node = '''' \<or> distinct (filter (\<lambda>h. lookup nm h = node) rest) \<Longrightarrow>
   fst (RemoveNode_loop node rest (acc, nm)) = acc @ filter (\<lambda>h. lookup nm h \<noteq> node) rest"
proof (induction rest arbitrary: acc nm)
  case Nil
  then show ?case by simp
next
  case (Cons hash rest)
  show ?case
  proof (cases "lookup nm hash \<noteq> node")
    case True
    have "node = '''' \<or> distinct (filter (\<lambda>h. lookup nm h = node) rest)"
      using Cons.prems True by auto
    then show ?thesis
      using True Cons.IH [of nm "acc @ [hash]"] by simp
  next
    case False
    have agree: "\<forall>h\<in>set rest. (lookup (nm(hash := None)) h = node) = (lookup nm h = node)"
    proof
      fix h assume h: "h \<in> set rest"
      show "(lookup (nm(hash := None)) h = node) = (lookup nm h = node)"
      proof (cases "h = hash")
        case True
        with h Cons.prems False have "node = ''''" by auto
        with True False show ?thesis by (simp add: lookup_del_same)
      next
        case False
        then show ?thesis by (simp add: lookup_other)
      qed
    qed
    then have f1: "filter (\<lambda>h. lookup (nm(hash := None)) h = node) rest
                 = filter (\<lambda>h. lookup nm h = node) rest"
      and f2: "filter (\<lambda>h. lookup (nm(hash := None)) h \<noteq> node) rest
                 = filter (\<lambda>h. lookup nm h \<noteq> node) rest"
      by (auto intro: filter_cong)
    have pre: "node = '''' \<or> distinct (filter (\<lambda>h. lookup (nm(hash := None)) h = node) rest)"
      using Cons.prems False by (auto simp: f1)
    have step: "RemoveNode_loop node (hash # rest) (acc, nm)
                = RemoveNode_loop node rest (acc, nm(hash := None))"
      using False by simp
    have "fst (RemoveNode_loop node rest (acc, nm(hash := None)))
          = acc @ filter (\<lambda>h. lookup (nm(hash := None)) h \<noteq> node) rest"
      using pre by (rule Cons.IH)
    then show ?thesis
      unfolding step f2 using False by simp
  qed
qed

lemma subseq_sorted: "subseq ys xs \<Longrightarrow> sorted xs \<Longrightarrow> sorted (ys :: uint32 list)"
proof (induction rule: list_emb.induct)
  case (list_emb_Nil ys)
  then show ?case by simp
next
  case (list_emb_Cons xs ys y)
  then show ?case by simp
next
  case (list_emb_Cons2 x y xs ys)
  have "set xs \<subseteq> set ys"
    using list_emb_Cons2.hyps(2) by (auto elim: list_emb_set)
  with list_emb_Cons2 show ?case by auto
qed

lemma RemoveNode_member:
  assumes "node \<in> dom (actualNodes ch)"
  shows "RemoveNode ch node =
           ch\<lparr>hashRing := fst (RemoveNode_loop node (hashRing ch) ([], nodeMap ch)),
              nodeMap := (\<lambda>h. if h \<in> set (hashRing ch) \<and> lookup (nodeMap ch) h = node then None
                               else nodeMap ch h),
              actualNodes := (actualNodes ch)(node := None)\<rparr>"
proof -
  obtain newRing nm where l: "RemoveNode_loop node (hashRing ch) ([], nodeMap ch) = (newRing, nm)"
    by (cases "RemoveNode_loop node (hashRing ch) ([], nodeMap ch)")
  have "nm = (\<lambda>h. if h \<in> set (hashRing ch) \<and> lookup (nodeMap ch) h = node then None
                   else nodeMap ch h)"
    using RemoveNode_loop_map [of node "hashRing ch" "[]" "nodeMap ch"] l by simp
  then show ?thesis using assms l by (simp add: RemoveNode_def)
qed

lemma RemoveNode_other: "node \<notin> dom (actualNodes ch) \<Longrightarrow> RemoveNode ch node = ch"
  by (simp add: RemoveNode_def)

lemma RemoveNode_ring_subseq: "subseq (hashRing (RemoveNode ch node)) (hashRing ch)"
proof (cases "node \<in> dom (actualNodes ch)")
  case True
  obtain ys where "fst (RemoveNode_loop node (hashRing ch) ([], nodeMap ch)) = [] @ ys"
    "subseq ys (hashRing ch)"
    using RemoveNode_loop_subseq [of node "hashRing ch" "[]" "nodeMap ch"] by blast
  then show ?thesis using True by (simp add: RemoveNode_member)
next
  case False
  then show ?thesis by (simp add: RemoveNode_other)
qed

lemma RemoveNode_ring_kept:
  assumes "p \<in> set (hashRing ch)" "lookup (nodeMap ch) p \<noteq> node"
  shows "p \<in> set (hashRing (RemoveNode ch node))"
proof (cases "node \<in> dom (actualNodes ch)")
  case True
  obtain ys where "fst (RemoveNode_loop node (hashRing ch) ([], nodeMap ch)) = [] @ ys"
    "set (filter (\<lambda>h. lookup (nodeMap ch) h \<noteq> node) (hashRing ch)) \<subseteq> set ys"
    using RemoveNode_loop_subseq [of node "hashRing ch" "[]" "nodeMap ch"] by blast
  then show ?thesis using True assms by (auto simp: RemoveNode_member)
next
  case False
  then show ?thesis using assms by (simp add: RemoveNode_other)
qed

lemma RemoveNode_ring_subset: "set (hashRing (RemoveNode ch node)) \<subseteq> set (hashRing ch)"
  using RemoveNode_ring_subseq [of ch node] by (auto elim: list_emb_set)

lemma RemoveNode_lookup_kept:
  "lookup (nodeMap ch) p \<noteq> node \<Longrightarrow> lookup (nodeMap (RemoveNode ch node)) p = lookup (nodeMap ch) p"
  by (cases "node \<in> dom (actualNodes ch)")
     (auto simp: RemoveNode_member RemoveNode_other lookup_def)

lemma RemoveNode_ring_filter:
  assumes "node \<in> dom (actualNodes ch)"
    and "node = '''' \<or> distinct (filter (\<lambda>h. lookup (nodeMap ch) h = node) (hashRing ch))"
  shows "hashRing (RemoveNode ch node) = filter (\<lambda>h. lookup (nodeMap ch) h \<noteq> node) (hashRing ch)"
  using RemoveNode_loop_filter [OF assms(2), of "[]"] assms(1) by (simp add: RemoveNode_member)

lemma RemoveNode_sorted: "sorted (hashRing ch) \<Longrightarrow> sorted (hashRing (RemoveNode ch node))"
  using RemoveNode_ring_subseq by (rule subseq_sorted)

lemma AddNode_sorted: "sorted (hashRing ch) \<Longrightarrow> sorted (hashRing (AddNode sha1 ch node))"
  by (cases "node \<in> dom (actualNodes ch)") (simp_all add: AddNode_new AddNode_old)

subsection \<open>The binary search\<close>

lemma Search_loop_bounds: "i \<le> j \<Longrightarrow> i \<le> Search_loop f i j \<and> Search_loop f i j \<le> j"
proof (induction f i j rule: Search_loop.induct)
  case (1 f i j)
  show ?case
  proof (cases "i < j")
    case True
    define h where "h = (i + j) div 2"
    have hb: "i \<le> h" "h < j" using True by (auto simp: h_def)
    show ?thesis
    proof (cases "f h")
      case True
      have "i \<le> Search_loop f i h \<and> Search_loop f i h \<le> h"
        using "1.IH"(2) [OF \<open>i < j\<close> h_def [symmetric, THEN sym]] True hb by (simp add: h_def)
      then show ?thesis
        using \<open>i < j\<close> True hb by (subst (1 2) Search_loop.simps) (simp add: h_def Let_def)
    next
      case False
      have "h + 1 \<le> Search_loop f (h + 1) j \<and> Search_loop f (h + 1) j \<le> j"
        using "1.IH"(1) [OF \<open>i < j\<close> h_def [symmetric, THEN sym]] False hb by (simp add: h_def)
      then show ?thesis
        using \<open>i < j\<close> False hb by (subst (1 2) Search_loop.simps) (simp add: h_def Let_def)
    qed
  next
    case False
    then show ?thesis using "1.prems" by (subst (1 2) Search_loop.simps) simp
  qed
qed

text \<open>
  On a predicate that, once true, stays true up to \<open>n\<close>, the search returns the least
  index at which it holds, or \<open>n\<close>.
\<close>

lemma Search_loop_least:
  "(\<forall>k k'. k \<le> k' \<and> k' < n \<and> f k \<longrightarrow> f k') \<Longrightarrow> i \<le> j \<Longrightarrow> j \<le> n \<Longrightarrow>
   (\<forall>k<i. \<not> f k) \<Longrightarrow> (\<forall>k. j \<le> k \<and> k < n \<longrightarrow> f k) \<Longrightarrow>
   (\<forall>k<Search_loop f i j. \<not> f k) \<and> (\<forall>k. Search_loop f i j \<le> k \<and> k < n \<longrightarrow> f k)"
proof (induction f i j rule: Search_loop.induct)
  case (1 f i j)
  let ?h = "(i + j) div 2"
  note mono = "1.prems"(1)
  show ?case
  proof (cases "i < j")
    case True
    have hb: "i \<le> ?h" "?h < j" "?h < n" using True "1.prems"(3) by auto
    show ?thesis
    proof (cases "f ?h")
      case True
      have up: "\<forall>k. ?h \<le> k \<and> k < n \<longrightarrow> f k"
        using True mono by blast
      have "(\<forall>k<Search_loop f i ?h. \<not> f k) \<and> (\<forall>k. Search_loop f i ?h \<le> k \<and> k < n \<longrightarrow> f k)"
      proof (rule "1.IH"(2) [OF \<open>i < j\<close> refl _ mono])
        show "\<not> \<not> f ?h" using True by simp
        show "i \<le> ?h" "?h \<le> n" using hb by simp_all
        show "\<forall>k<i. \<not> f k" by (rule "1.prems"(4))
        show "\<forall>k. ?h \<le> k \<and> k < n \<longrightarrow> f k" by (rule up)
      qed
      moreover have "Search_loop f i j = Search_loop f i ?h"
        using \<open>i < j\<close> True by (subst Search_loop.simps) (simp add: Let_def)
      ultimately show ?thesis by simp
    next
      case False
      have low: "\<forall>k<?h + 1. \<not> f k"
      proof (intro allI impI)
        fix k assume "k < ?h + 1"
        then have "k \<le> ?h" by simp
        then show "\<not> f k" using False mono hb(3) by blast
      qed
      have "(\<forall>k<Search_loop f (?h + 1) j. \<not> f k)
            \<and> (\<forall>k. Search_loop f (?h + 1) j \<le> k \<and> k < n \<longrightarrow> f k)"
      proof (rule "1.IH"(1) [OF \<open>i < j\<close> refl _ mono])
        show "\<not> f ?h" by (rule False)
        show "?h + 1 \<le> j" using hb by simp
        show "j \<le> n" by (rule "1.prems"(3))
        show "\<forall>k<?h + 1. \<not> f k" by (rule low)
        show "\<forall>k. j \<le> k \<and> k < n \<longrightarrow> f k" by (rule "1.prems"(5))
      qed
      moreover have "Search_loop f i j = Search_loop f (?h + 1) j"
        using \<open>i < j\<close> False by (subst Search_loop.simps) (simp add: Let_def)
      ultimately show ?thesis by simp
    qed
  next
    case False
    then have "Search_loop f i j = i" by (subst Search_loop.simps) simp
    moreover have "i = j" using False "1.prems"(2) by simp
    ultimately show ?thesis using "1.prems"(4,5) by simp
  qed
qed

lemma Search_le: "Search n f \<le> n"
  using Search_loop_bounds [of 0 n f] by (simp add: Search_def)

lemma Search_sorted:
  assumes "sorted ring"
  shows "(\<forall>k<Search (length ring) (\<lambda>i. hash \<le> ring ! i). ring ! k < hash)
       \<and> (\<forall>k. Search (length ring) (\<lambda>i. hash \<le> ring ! i) \<le> k \<and> k < length ring
              \<longrightarrow> hash \<le> ring ! k)"
proof -
  let ?f = "\<lambda>i. hash \<le> ring ! i"
  have mono: "\<forall>k k'. k \<le> k' \<and> k' < length ring \<and> ?f k \<longrightarrow> ?f k'"
  proof (intro allI impI)
    fix k k' assume a: "k \<le> k' \<and> k' < length ring \<and> hash \<le> ring ! k"
    then have "ring ! k \<le> ring ! k'" using assms by (simp add: sorted_nth_mono)
    with a show "hash \<le> ring ! k'" by (meson order_trans)
  qed
  have "(\<forall>k<Search_loop ?f 0 (length ring). \<not> ?f k)
      \<and> (\<forall>k. Search_loop ?f 0 (length ring) \<le> k \<and> k < length ring \<longrightarrow> ?f k)"
    by (rule Search_loop_least [OF mono]) auto
  then show ?thesis by (simp add: Search_def not_le)
qed

subsection \<open>The clockwise successor\<close>

lemma successor_later:
  assumes "q \<in> set ring" "hash \<le> q"
  shows "successor ring hash \<in> set ring \<and> hash \<le> successor ring hash
         \<and> (\<forall>p\<in>set ring. hash \<le> p \<longrightarrow> successor ring hash \<le> p)"
proof -
  let ?later = "filter (\<lambda>p. hash \<le> p) ring"
  have ne: "set ?later \<noteq> {}" using assms by auto
  then have "?later \<noteq> []" by (simp only: set_empty not_False_eq_True)
  then have s: "successor ring hash = Min (set ?later)"
    unfolding successor_def Let_def by (simp only: if_False)
  have "Min (set ?later) \<in> set ?later" using ne by (intro Min_in) simp_all
  moreover have "\<forall>p\<in>set ?later. Min (set ?later) \<le> p" by simp
  ultimately show ?thesis unfolding s by auto
qed

lemma successor_wrap:
  assumes "ring \<noteq> []" "\<forall>q\<in>set ring. q < hash"
  shows "successor ring hash \<in> set ring \<and> (\<forall>p\<in>set ring. successor ring hash \<le> p)"
proof -
  have "filter (\<lambda>p. hash \<le> p) ring = []" using assms(2) by (auto simp: filter_empty_conv)
  then have s: "successor ring hash = Min (set ring)"
    by (simp add: successor_def Let_def)
  have "Min (set ring) \<in> set ring" using assms(1) by (intro Min_in) simp_all
  then show ?thesis unfolding s by simp
qed



subsection \<open>GetNode\<close>

lemma GetNode_empty: "hashRing ch = [] \<Longrightarrow> GetNode sha1 ch key = ''''"
  by (simp add: GetNode_def)

lemma GetNode_in_ring:
  "hashRing ch \<noteq> [] \<Longrightarrow> \<exists>p\<in>set (hashRing ch). GetNode sha1 ch key = lookup (nodeMap ch) p"
proof -
  assume ne: "hashRing ch \<noteq> []"
  let ?n = "length (hashRing ch)"
  let ?r = "Search ?n (\<lambda>i. hashKey sha1 key \<le> hashRing ch ! i)"
  let ?idx = "if ?r = ?n then 0 else ?r"
  have "?r \<le> ?n" by (rule Search_le)
  then have "?idx < ?n" using ne by auto
  then have "hashRing ch ! ?idx \<in> set (hashRing ch)" by (rule nth_mem)
  moreover have "GetNode sha1 ch key = lookup (nodeMap ch) (hashRing ch ! ?idx)"
    using ne by (simp add: GetNode_def Let_def)
  ultimately show ?thesis by blast
qed

lemma GetNode_sorted:
  assumes srt: "sorted (hashRing ch)" and ne: "hashRing ch \<noteq> []"
  shows "GetNode sha1 ch key = lookup (nodeMap ch) (successor (hashRing ch) (hashKey sha1 key))"
proof -
  let ?ring = "hashRing ch"
  let ?hash = "hashKey sha1 key"
  let ?n = "length ?ring"
  let ?r = "Search ?n (\<lambda>i. ?hash \<le> ?ring ! i)"
  let ?idx = "if ?r = ?n then 0 else ?r"
  have get: "GetNode sha1 ch key = lookup (nodeMap ch) (?ring ! ?idx)"
    using ne by (simp add: GetNode_def Let_def)
  have below: "\<forall>k<?r. ?ring ! k < ?hash"
    and above: "\<forall>k. ?r \<le> k \<and> k < ?n \<longrightarrow> ?hash \<le> ?ring ! k"
    using Search_sorted [OF srt, of ?hash] by blast+
  have le: "?r \<le> ?n" by (rule Search_le)
  have "?ring ! ?idx = successor ?ring ?hash"
  proof (cases "?r = ?n")
    case True
    have all: "\<forall>q\<in>set ?ring. q < ?hash"
      using below True by (auto simp: in_set_conv_nth)
    have first: "\<forall>p\<in>set ?ring. ?ring ! 0 \<le> p"
      using srt by (auto simp: in_set_conv_nth sorted_nth_mono)
    have "successor ?ring ?hash \<le> ?ring ! 0"
      using successor_wrap [OF ne all] ne by (simp add: nth_mem)
    moreover have "?ring ! 0 \<le> successor ?ring ?hash"
      using successor_wrap [OF ne all] first by blast
    ultimately show ?thesis using True by simp
  next
    case False
    then have lt: "?r < ?n" using le by simp
    have mem: "?ring ! ?r \<in> set ?ring" using lt by (rule nth_mem)
    have ge: "?hash \<le> ?ring ! ?r" using above lt by simp
    note succ = successor_later [OF mem ge]
    have "successor ?ring ?hash \<le> ?ring ! ?r" using succ mem ge by blast
    moreover have "?ring ! ?r \<le> successor ?ring ?hash"
    proof -
      obtain k where k: "k < ?n" "?ring ! k = successor ?ring ?hash"
        using succ by (auto simp: in_set_conv_nth)
      have "\<not> k < ?r" using below k succ by (auto simp: not_less)
      then have "?r \<le> k" by simp
      then have "?ring ! ?r \<le> ?ring ! k" using srt k(1) by (simp add: sorted_nth_mono)
      then show ?thesis by (simp add: k(2))
    qed
    ultimately show ?thesis using False by simp
  qed
  then show ?thesis by (simp add: get)
qed


lemma GetNode_RemoveNode_never:
  assumes "X \<in> dom (actualNodes ch)" and "X \<noteq> ''''"
  shows "GetNode sha1 (RemoveNode ch X) key \<noteq> X"
proof (cases "hashRing (RemoveNode ch X) = []")
  case True
  then show ?thesis using assms(2) by (simp add: GetNode_empty)
next
  case False
  then obtain p where p: "p \<in> set (hashRing (RemoveNode ch X))"
    "GetNode sha1 (RemoveNode ch X) key = lookup (nodeMap (RemoveNode ch X)) p"
    using GetNode_in_ring by blast
  have "p \<in> set (hashRing ch)" using p(1) RemoveNode_ring_subset by blast
  then have "lookup (nodeMap (RemoveNode ch X)) p \<noteq> X"
    using assms by (auto simp: RemoveNode_member lookup_def split: option.splits)
  then show ?thesis by (simp add: p(2))
qed

lemma GetNode_RemoveNode_self:
  assumes mem: "X \<in> dom (actualNodes ch)" and ret: "GetNode sha1 (RemoveNode ch X) key = X"
  shows "X = '''' \<and> hashRing (RemoveNode ch X) = []"
proof -
  have name: "X = ''''"
    using GetNode_RemoveNode_never [OF mem, of sha1 key] ret by blast
  have "hashRing (RemoveNode ch X) = []"
  proof (rule ccontr)
    assume ne: "hashRing (RemoveNode ch X) \<noteq> []"
    then obtain p where p: "p \<in> set (hashRing (RemoveNode ch X))"
      "GetNode sha1 (RemoveNode ch X) key = lookup (nodeMap (RemoveNode ch X)) p"
      using GetNode_in_ring by blast
    have "hashRing (RemoveNode ch X) = filter (\<lambda>h. lookup (nodeMap ch) h \<noteq> X) (hashRing ch)"
      using mem name by (intro RemoveNode_ring_filter) simp_all
    then have "lookup (nodeMap ch) p \<noteq> X" using p(1) by simp
    then have "lookup (nodeMap (RemoveNode ch X)) p \<noteq> X"
      by (simp add: RemoveNode_lookup_kept)
    then show False using p(2) ret by simp
  qed
  with name show ?thesis by simp
qed

lemma AddNode_owned:
  assumes "node \<noteq> ''''" and "\<forall>p\<in>set (hashRing ch). lookup (nodeMap ch) p \<noteq> ''''"
  shows "\<forall>p\<in>set (hashRing (AddNode sha1 ch node)). lookup (nodeMap (AddNode sha1 ch node)) p \<noteq> ''''"
  using assms
  by (cases "node \<in> dom (actualNodes ch)") (auto simp: AddNode_new AddNode_old lookup_def)

lemma AddNode_nonempty:
  assumes "node \<notin> dom (actualNodes ch)" and "0 < replicas ch"
  shows "hashRing (AddNode sha1 ch node) \<noteq> []"
proof -
  have "length (hashRing (AddNode sha1 ch node)) = length (hashRing ch) + nat (replicas ch)"
    using assms(1) by (simp add: AddNode_new positions_def)
  then show ?thesis using assms(2) by auto
qed

subsection \<open>The invariant of the reachable states\<close>

lemma ring_inv_new: "ring_inv (NewConsistentHash r)"
  by (simp add: ring_inv_def NewConsistentHash_def)

lemma ring_inv_AddNode: "ring_inv ch \<Longrightarrow> ring_inv (AddNode sha1 ch node)"
proof (cases "node \<in> dom (actualNodes ch)")
  case True
  assume "ring_inv ch"
  then show ?thesis using True by (simp add: AddNode_old)
next
  case False
  assume inv: "ring_inv ch"
  have "dom (\<lambda>p. if p \<in> set (positions sha1 node (replicas ch)) then Some node else nodeMap ch p)
        \<subseteq> set (hashRing ch) \<union> set (positions sha1 node (replicas ch))"
    using inv by (auto simp: ring_inv_def dom_def split: if_splits)
  moreover have "ran (\<lambda>p. if p \<in> set (positions sha1 node (replicas ch)) then Some node
                           else nodeMap ch p)
        \<subseteq> insert node (dom (actualNodes ch))"
    using inv by (auto simp: ring_inv_def ran_def split: if_splits)
  ultimately show ?thesis
    using False by (simp add: AddNode_new ring_inv_def)
qed

lemma ring_inv_RemoveNode: "ring_inv ch \<Longrightarrow> ring_inv (RemoveNode ch node)"
proof (cases "node \<in> dom (actualNodes ch)")
  case False
  assume "ring_inv ch"
  then show ?thesis using False by (simp add: RemoveNode_other)
next
  case True
  assume inv: "ring_inv ch"
  let ?nm = "\<lambda>h. if h \<in> set (hashRing ch) \<and> lookup (nodeMap ch) h = node then None
                  else nodeMap ch h"
  have nm: "nodeMap (RemoveNode ch node) = ?nm"
    and mem: "actualNodes (RemoveNode ch node) = (actualNodes ch)(node := None)"
    using True by (simp_all add: RemoveNode_member)
  have s: "sorted (hashRing (RemoveNode ch node))"
    using inv by (simp add: ring_inv_def RemoveNode_sorted)
  have d: "dom (nodeMap (RemoveNode ch node)) \<subseteq> set (hashRing (RemoveNode ch node))"
  proof
    fix p assume "p \<in> dom (nodeMap (RemoveNode ch node))"
    then have p: "?nm p \<noteq> None" by (auto simp: nm)
    then have "nodeMap ch p \<noteq> None" by (auto split: if_splits)
    then have "p \<in> set (hashRing ch)" using inv by (auto simp: ring_inv_def)
    moreover from this p have "lookup (nodeMap ch) p \<noteq> node" by (auto split: if_splits)
    ultimately show "p \<in> set (hashRing (RemoveNode ch node))" by (rule RemoveNode_ring_kept)
  qed
  have r: "ran (nodeMap (RemoveNode ch node)) \<subseteq> dom (actualNodes (RemoveNode ch node))"
  proof
    fix x assume "x \<in> ran (nodeMap (RemoveNode ch node))"
    then obtain p where p: "?nm p = Some x" by (auto simp: nm ran_def)
    then have old: "nodeMap ch p = Some x" by (auto split: if_splits)
    then have "p \<in> set (hashRing ch)" "x \<in> dom (actualNodes ch)"
      using inv by (auto simp: ring_inv_def ran_def)
    moreover from this p old have "x \<noteq> node" by (auto simp: lookup_def split: if_splits)
    ultimately show "x \<in> dom (actualNodes (RemoveNode ch node))" by (simp add: mem)
  qed
  show ?thesis using s d r by (simp add: ring_inv_def)
qed

lemma reachable_inv: "reachable sha1 ch \<Longrightarrow> ring_inv ch"
  by (induction rule: reachable.induct)
     (simp_all add: ring_inv_new ring_inv_AddNode ring_inv_RemoveNode)

lemma reachable_sorted: "reachable sha1 ch \<Longrightarrow> sorted (hashRing ch)"
  using reachable_inv by (auto simp: ring_inv_def)

subsection \<open>The four bytes of hashKey\<close>

lemma or_bytes:
  fixes b0 b1 b2 b3 :: byte
  shows "(push_bit 24 (ucast b0) OR push_bit 16 (ucast b1) OR push_bit 8 (ucast b2) OR ucast b3 :: uint32)
       = push_bit 24 (ucast b0) + push_bit 16 (ucast b1) + push_bit 8 (ucast b2) + ucast b3"
proof -
  let ?a = "push_bit 24 (ucast b0) :: uint32"
  let ?b = "push_bit 16 (ucast b1) :: uint32"
  let ?c = "push_bit 8 (ucast b2) :: uint32"
  let ?d = "ucast b3 :: uint32"
  have 3: "?c AND ?d = 0"
    by (auto simp: bit_eq_iff bit_simps dest: bit_imp_le_length)
  have 2: "?b AND (?c OR ?d) = 0"
    by (auto simp: bit_eq_iff bit_simps dest: bit_imp_le_length)
  have 1: "?a AND (?b OR ?c OR ?d) = 0"
    by (auto simp: bit_eq_iff bit_simps dest: bit_imp_le_length)
  have e1: "?a OR ?b OR ?c OR ?d = ?a + (?b OR ?c OR ?d)"
    using 1 by (rule disjunctive_add_eq_or [symmetric])
  have e2: "?b OR ?c OR ?d = ?b + (?c OR ?d)"
    using 2 by (rule disjunctive_add_eq_or [symmetric])
  have e3: "?c OR ?d = ?c + ?d"
    using 3 by (rule disjunctive_add_eq_or [symmetric])
  show ?thesis by (subst e1, subst e2, subst e3) (simp only: add.assoc)
qed

lemma unat_bytes:
  fixes b0 b1 b2 b3 :: byte
  shows "unat (push_bit 24 (ucast b0) + push_bit 16 (ucast b1) + push_bit 8 (ucast b2) + ucast b3 :: uint32)
       = unat b0 * 2 ^ 24 + unat b1 * 2 ^ 16 + unat b2 * 2 ^ 8 + unat b3"
proof -
  have b: "unat b0 < 256" "unat b1 < 256" "unat b2 < 256" "unat b3 < 256"
    using unsigned_less [of b0] unsigned_less [of b1] unsigned_less [of b2] unsigned_less [of b3]
    by simp_all
  have "(push_bit 24 (ucast b0) + push_bit 16 (ucast b1) + push_bit 8 (ucast b2) + ucast b3 :: uint32)
      = of_nat (unat b0 * 2 ^ 24 + unat b1 * 2 ^ 16 + unat b2 * 2 ^ 8 + unat b3)"
    by (simp add: push_bit_eq_mult mult.commute)
  moreover have "unat b0 * 2 ^ 24 + unat b1 * 2 ^ 16 + unat b2 * 2 ^ 8 + unat b3 < 2 ^ 32"
    using b by simp
  ultimately show ?thesis
    by (simp add: unat_of_nat del: of_nat_add of_nat_mult)
qed

lemma hashKey_bytes:
  assumes "sha1 key = b0 # b1 # b2 # b3 # rest"
  shows "unat (hashKey sha1 key) = unat b0 * 2 ^ 24 + unat b1 * 2 ^ 16 + unat b2 * 2 ^ 8 + unat b3"
  using assms by (simp add: hashKey_def or_bytes unat_bytes)

subsection \<open>The concrete rings\<close>

lemma reachable_demo: "reachable sha1_sample demo"
  unfolding demo_def by (intro reachable.intros)

lemma reachable_unnamed: "reachable sha1_sample unnamed"
  unfolding unnamed_def by (intro reachable.intros)

lemma reachable_orphaned: "reachable sha1_sample orphaned"
  unfolding orphaned_def collided_def by (intro reachable.intros)

lemma reachable_mixed: "reachable sha1_sample mixed"
  unfolding mixed_def by (intro reachable.intros)

lemma demo_ring:
  "hashRing demo = [14315101, 442054020, 613571882, 1354652122, 2433757126, 2680482646,
                    3162231355, 3642796969, 3791699533]"
  by code_simp

lemma demo_members: "actualNodes demo ''ServerB'' = Some True"
  by code_simp


section \<open>Lookup\<close>

text \<open>
  C1. On every reachable ring with at least one position, \<^verbatim>\<open>GetNode(key)\<close> returns the
  owner recorded for the clockwise successor of \<open>hashKey key\<close>: the smallest position on
  the list that is greater than or equal to the hash and, when every position is smaller
  than the hash, the first position of the list, which is the smallest.
\<close>

theorem GetNode_successor:
  assumes "reachable sha1 ch" and "hashRing ch \<noteq> []"
  shows "GetNode sha1 ch key = lookup (nodeMap ch) (successor (hashRing ch) (hashKey sha1 key))
       \<and> ((\<exists>p\<in>set (hashRing ch). hashKey sha1 key \<le> p) \<longrightarrow>
            successor (hashRing ch) (hashKey sha1 key) \<in> set (hashRing ch)
            \<and> hashKey sha1 key \<le> successor (hashRing ch) (hashKey sha1 key)
            \<and> (\<forall>p\<in>set (hashRing ch). hashKey sha1 key \<le> p \<longrightarrow>
                  successor (hashRing ch) (hashKey sha1 key) \<le> p))
       \<and> ((\<forall>p\<in>set (hashRing ch). p < hashKey sha1 key) \<longrightarrow>
            successor (hashRing ch) (hashKey sha1 key) = hd (hashRing ch)
            \<and> (\<forall>p\<in>set (hashRing ch). hd (hashRing ch) \<le> p))"
proof -
  let ?ring = "hashRing ch"
  let ?hash = "hashKey sha1 key"
  have srt: "sorted ?ring" using assms(1) by (rule reachable_sorted)
  have get: "GetNode sha1 ch key = lookup (nodeMap ch) (successor ?ring ?hash)"
    using srt assms(2) by (rule GetNode_sorted)
  have later: "(\<exists>p\<in>set ?ring. ?hash \<le> p) \<longrightarrow>
      successor ?ring ?hash \<in> set ?ring \<and> ?hash \<le> successor ?ring ?hash
      \<and> (\<forall>p\<in>set ?ring. ?hash \<le> p \<longrightarrow> successor ?ring ?hash \<le> p)"
    using successor_later by blast
  have first: "\<forall>p\<in>set ?ring. hd ?ring \<le> p"
    using srt assms(2) by (cases ?ring) auto
  have wrap: "(\<forall>p\<in>set ?ring. p < ?hash) \<longrightarrow> successor ?ring ?hash = hd ?ring"
  proof
    assume all: "\<forall>p\<in>set ?ring. p < ?hash"
    note w = successor_wrap [OF assms(2) all]
    have "hd ?ring \<in> set ?ring" using assms(2) by simp
    then have "successor ?ring ?hash \<le> hd ?ring" using w by blast
    moreover have "hd ?ring \<le> successor ?ring ?hash" using w first by blast
    ultimately show "successor ?ring ?hash = hd ?ring" by simp
  qed
  show ?thesis using get later wrap first by blast
qed

text \<open>
  On the ring of \<^verbatim>\<open>main\<close>: \<^verbatim>\<open>CellID_12345\<close> hashes to 152041816 and goes to the position
  442054020 of \<^verbatim>\<open>ServerC\<close>; \<^verbatim>\<open>CellID_15\<close> hashes to 3871723104, beyond every position,
  and wraps to the first position, which \<^verbatim>\<open>ServerA\<close> owns.
\<close>

theorem GetNode_successor_witness:
  "GetNode sha1_sample demo ''CellID_12345'' = ''ServerC''
   \<and> successor (hashRing demo) (hashKey sha1_sample ''CellID_12345'') = 442054020
   \<and> GetNode sha1_sample demo ''CellID_15'' = ''ServerA''
   \<and> successor (hashRing demo) (hashKey sha1_sample ''CellID_15'') = hd (hashRing demo)"
proof -
  have ne: "hashRing demo \<noteq> []" by (simp add: demo_ring)
  note t1 = GetNode_successor [OF reachable_demo ne, of "''CellID_12345''"]
  note t2 = GetNode_successor [OF reachable_demo ne, of "''CellID_15''"]
  have s1: "successor (hashRing demo) (hashKey sha1_sample ''CellID_12345'') = 442054020"
    by code_simp
  have o1: "lookup (nodeMap demo) 442054020 = ''ServerC''" by code_simp
  have w: "\<forall>p\<in>set (hashRing demo). p < hashKey sha1_sample ''CellID_15''" by code_simp
  have o2: "lookup (nodeMap demo) (hd (hashRing demo)) = ''ServerA''" by code_simp
  show ?thesis using t1 t2 s1 o1 w o2 by simp
qed

text \<open>
  C9. A call of \<^verbatim>\<open>GetNode\<close> leaves the state of the receiver as it found it, whatever
  the state and the key: position list, owner map, membership and replica count are those
  before the call, and the string returned is \<^const>\<open>GetNode\<close> of that state. Two calls
  in a row with the same key return the same node and leave the state as it was.
\<close>

theorem GetNode_deterministic:
  "run_state (GetNode_method sha1 key) ch = (GetNode sha1 ch key, ch)
   \<and> run_state (do { a \<leftarrow> GetNode_method sha1 key;
                     b \<leftarrow> GetNode_method sha1 key;
                     State_Monad.return (a, b) }) ch
       = ((GetNode sha1 ch key, GetNode sha1 ch key), ch)"
proof -
  have once: "run_state (GetNode_method sha1 key) s = (GetNode sha1 s key, s)" for s
    by (simp add: GetNode_method_def GetNode_def Let_def)
  then show ?thesis by simp
qed

text \<open>On the ring of \<^verbatim>\<open>main\<close>, twice \<^verbatim>\<open>ServerC\<close> for \<^verbatim>\<open>CellID_12345\<close>, and the same ring.\<close>

theorem GetNode_deterministic_witness:
  "run_state (do { a \<leftarrow> GetNode_method sha1_sample ''CellID_12345'';
                  b \<leftarrow> GetNode_method sha1_sample ''CellID_12345'';
                  State_Monad.return (a, b) }) demo
     = ((''ServerC'', ''ServerC''), demo)"
proof -
  have "GetNode sha1_sample demo ''CellID_12345'' = ''ServerC''" by code_simp
  then show ?thesis
    using GetNode_deterministic [of sha1_sample "''CellID_12345''" demo] by simp
qed

text \<open>
  C7, as the code has it. \<^verbatim>\<open>GetNode\<close> returns the empty string on a ring with no
  position. On a ring with a position it returns the owner recorded for the position it
  selects, which is not the empty string when every position on the list has a recorded
  owner with a non-empty name; adding a node with a non-empty name and a positive replica
  count to such a ring (the new ring is one) leaves \<^verbatim>\<open>GetNode\<close> non-empty for every key.
\<close>

theorem GetNode_nonempty:
  "(hashRing ch = [] \<longrightarrow> GetNode sha1 ch key = '''')
   \<and> (hashRing ch \<noteq> [] \<and> (\<forall>p\<in>set (hashRing ch). lookup (nodeMap ch) p \<noteq> '''')
        \<longrightarrow> GetNode sha1 ch key \<noteq> '''')
   \<and> (node \<noteq> '''' \<and> node \<notin> dom (actualNodes ch) \<and> 0 < replicas ch
        \<and> (\<forall>p\<in>set (hashRing ch). lookup (nodeMap ch) p \<noteq> '''')
        \<longrightarrow> GetNode sha1 (AddNode sha1 ch node) key \<noteq> '''')"
proof -
  have owned: "GetNode sha1 c key \<noteq> ''''"
    if ne: "hashRing c \<noteq> []" and ow: "\<forall>p\<in>set (hashRing c). lookup (nodeMap c) p \<noteq> ''''" for c
  proof -
    obtain p where "p \<in> set (hashRing c)" "GetNode sha1 c key = lookup (nodeMap c) p"
      using GetNode_in_ring [OF ne] by blast
    then show ?thesis using ow by simp
  qed
  have added: "GetNode sha1 (AddNode sha1 ch node) key \<noteq> ''''"
    if "node \<noteq> ''''" "node \<notin> dom (actualNodes ch)" "0 < replicas ch"
      "\<forall>p\<in>set (hashRing ch). lookup (nodeMap ch) p \<noteq> ''''"
    using that by (intro owned AddNode_nonempty AddNode_owned)
  show ?thesis using owned [of ch] added by (simp add: GetNode_empty)
qed

theorem GetNode_nonempty_witness:
  "GetNode sha1_sample (NewConsistentHash 3) ''CellID_12345'' = ''''
   \<and> GetNode sha1_sample (AddNode sha1_sample (NewConsistentHash 3) ''ServerA'') ''CellID_12345''
       \<noteq> ''''
   \<and> GetNode sha1_sample demo ''CellID_12345'' \<noteq> ''''"
proof -
  note t1 = GetNode_nonempty [of "NewConsistentHash 3" sha1_sample "''CellID_12345''" "''ServerA''"]
  note t2 = GetNode_nonempty [of demo sha1_sample "''CellID_12345''" "''ServerA''"]
  have o: "\<forall>p\<in>set (hashRing demo). lookup (nodeMap demo) p \<noteq> ''''" by code_simp
  have ne: "hashRing demo \<noteq> []" by (simp add: demo_ring)
  show ?thesis using t1 t2 o ne by (simp add: NewConsistentHash_def)
qed

text \<open>
  C7 as stated fails: the empty string is a node name like any other. After
  \<^verbatim>\<open>AddNode("")\<close> on a new ring with one replica the ring has the position 3059261382,
  and \<^verbatim>\<open>GetNode\<close> returns the name of its owner, the empty string.
\<close>

theorem GetNode_nonempty_counterexample:
  "reachable sha1_sample unnamed \<and> hashRing unnamed = [3059261382]
   \<and> GetNode sha1_sample unnamed ''CellID_12345'' = ''''"
proof -
  have "hashRing unnamed = [3059261382]" by code_simp
  moreover have "GetNode sha1_sample unnamed ''CellID_12345'' = ''''" by code_simp
  ultimately show ?thesis using reachable_unnamed by simp
qed

section \<open>Adding a node\<close>

text \<open>
  C4. Calling \<^verbatim>\<open>AddNode(X)\<close> twice in a row leaves exactly the state of calling it
  once: position list, owner map, membership and replica count are the same, because the
  second call finds \<open>X\<close> a member and returns at once.
\<close>

theorem AddNode_idempotent:
  "AddNode sha1 (AddNode sha1 ch X) X = AddNode sha1 ch X"
proof (cases "X \<in> dom (actualNodes ch)")
  case True
  then show ?thesis by (simp add: AddNode_old)
next
  case False
  then have "X \<in> dom (actualNodes (AddNode sha1 ch X))" by (simp add: AddNode_new)
  then show ?thesis by (rule AddNode_old)
qed

text \<open>
  C5. For a node that is not a member, \<^verbatim>\<open>AddNode\<close> appends the node's virtual positions
  to the list and sorts the list once: as many positions as the replica count, the
  \<open>i\<close>-th the hash of the node name followed by the decimal form of \<open>i\<close>. Every one of
  them is recorded as owned by the node, whoever owned it before, every other entry of the
  owner map is as it was, and the node is a member. The list keeps every value it had and
  every value added, with its multiplicity, so a position that was there already is there
  twice.
\<close>

theorem AddNode_positions:
  assumes "node \<notin> dom (actualNodes ch)"
  shows "hashRing (AddNode sha1 ch node) = sort (hashRing ch @ positions sha1 node (replicas ch))
       \<and> mset (hashRing (AddNode sha1 ch node))
           = mset (hashRing ch) + mset (positions sha1 node (replicas ch))
       \<and> length (positions sha1 node (replicas ch)) = nat (replicas ch)
       \<and> (\<forall>i<nat (replicas ch).
            positions sha1 node (replicas ch) ! i = hashKey sha1 (node @ Itoa (int i)))
       \<and> (\<forall>p\<in>set (positions sha1 node (replicas ch)). nodeMap (AddNode sha1 ch node) p = Some node)
       \<and> (\<forall>p. p \<notin> set (positions sha1 node (replicas ch)) \<longrightarrow>
              nodeMap (AddNode sha1 ch node) p = nodeMap ch p)
       \<and> actualNodes (AddNode sha1 ch node) = (actualNodes ch)(node \<mapsto> True)
       \<and> replicas (AddNode sha1 ch node) = replicas ch"
  using assms by (simp add: AddNode_new) (simp add: positions_def)

text \<open>
  With one replica, the nodes \<^verbatim>\<open>n58680\<close> and \<^verbatim>\<open>n73434\<close> both hash to 2605328136: after
  both are added the list holds the value twice and the owner is the node added last.
\<close>

theorem AddNode_positions_witness:
  "hashRing (AddNode sha1_sample (AddNode sha1_sample (NewConsistentHash 1) ''n58680'') ''n73434'')
     = [2605328136, 2605328136]
   \<and> nodeMap (AddNode sha1_sample (NewConsistentHash 1) ''n58680'') 2605328136 = Some ''n58680''
   \<and> nodeMap (AddNode sha1_sample (AddNode sha1_sample (NewConsistentHash 1) ''n58680'') ''n73434'')
       2605328136 = Some ''n73434''"
proof -
  let ?c = "AddNode sha1_sample (NewConsistentHash 1) ''n58680''"
  have fresh: "''n73434'' \<notin> dom (actualNodes ?c)"
  proof -
    have "actualNodes ?c ''n73434'' = None" by code_simp
    then show ?thesis by auto
  qed
  note t = AddNode_positions [OF fresh, of sha1_sample]
  have r: "replicas ?c = 1" and h: "hashRing ?c = [2605328136]" by code_simp+
  have p: "positions sha1_sample ''n73434'' 1 = [2605328136]" by code_simp
  have o: "nodeMap ?c 2605328136 = Some ''n58680''" by code_simp
  show ?thesis using t r h p o by simp
qed

section \<open>The position list stays sorted\<close>

text \<open>
  C6. The position list of every reachable state (the new ring, and any state after calls
  of \<^verbatim>\<open>AddNode\<close> and \<^verbatim>\<open>RemoveNode\<close>) is sorted ascending, and so it is after one more
  call of either. \<^verbatim>\<open>RemoveNode\<close> does not sort: the list it leaves is a subsequence of
  the list it found, in the same relative order.
\<close>

theorem hashRing_sorted:
  assumes "reachable sha1 ch"
  shows "sorted (hashRing ch)
       \<and> sorted (hashRing (AddNode sha1 ch node))
       \<and> sorted (hashRing (RemoveNode ch node))
       \<and> subseq (hashRing (RemoveNode ch node)) (hashRing ch)"
  using assms
  by (simp add: reachable_sorted AddNode_sorted RemoveNode_sorted RemoveNode_ring_subseq)

theorem hashRing_sorted_witness:
  "sorted (hashRing demo) \<and> sorted (hashRing (AddNode sha1_sample demo ''ServerD''))
   \<and> sorted (hashRing (RemoveNode demo ''ServerB''))
   \<and> subseq (hashRing (RemoveNode demo ''ServerB'')) (hashRing demo)"
  using hashRing_sorted [OF reachable_demo, of "''ServerD''"]
    hashRing_sorted [OF reachable_demo, of "''ServerB''"] by simp

section \<open>Removing a node\<close>



text \<open>
  C3, as the code has it. For a member \<open>X\<close> of a reachable ring: after
  \<^verbatim>\<open>RemoveNode(X)\<close>, \<^verbatim>\<open>GetNode\<close> returns \<open>X\<close> only when \<open>X\<close> is the empty string
  and no position is left; when a position is left, every key resolves to the clockwise
  successor of its hash among the positions left; and when each position of \<open>X\<close> occurred
  once on the list (or \<open>X\<close> is the empty string), the positions left are exactly those
  that \<open>X\<close> did not own, each with the owner it had.
\<close>

theorem RemoveNode_correct:
  assumes "reachable sha1 ch" and "X \<in> dom (actualNodes ch)"
  shows "(GetNode sha1 (RemoveNode ch X) key = X \<longrightarrow>
            X = '''' \<and> hashRing (RemoveNode ch X) = [])
       \<and> (hashRing (RemoveNode ch X) \<noteq> [] \<longrightarrow>
            GetNode sha1 (RemoveNode ch X) key =
              lookup (nodeMap (RemoveNode ch X))
                (successor (hashRing (RemoveNode ch X)) (hashKey sha1 key)))
       \<and> (X = '''' \<or> distinct (filter (\<lambda>p. lookup (nodeMap ch) p = X) (hashRing ch)) \<longrightarrow>
            hashRing (RemoveNode ch X)
              = filter (\<lambda>p. lookup (nodeMap ch) p \<noteq> X) (hashRing ch)
            \<and> (\<forall>p\<in>set (hashRing (RemoveNode ch X)).
                  lookup (nodeMap (RemoveNode ch X)) p = lookup (nodeMap ch) p))"
proof -
  have never: "GetNode sha1 (RemoveNode ch X) key = X \<longrightarrow>
      X = '''' \<and> hashRing (RemoveNode ch X) = []"
    using GetNode_RemoveNode_self [OF assms(2)] by blast
  have srt: "sorted (hashRing (RemoveNode ch X))"
    using assms(1) by (simp add: reachable_sorted RemoveNode_sorted)
  have next_pos: "hashRing (RemoveNode ch X) \<noteq> [] \<longrightarrow>
      GetNode sha1 (RemoveNode ch X) key =
        lookup (nodeMap (RemoveNode ch X))
          (successor (hashRing (RemoveNode ch X)) (hashKey sha1 key))"
    using srt by (simp add: GetNode_sorted)
  have surv: "X = '''' \<or> distinct (filter (\<lambda>p. lookup (nodeMap ch) p = X) (hashRing ch)) \<longrightarrow>
      hashRing (RemoveNode ch X) = filter (\<lambda>p. lookup (nodeMap ch) p \<noteq> X) (hashRing ch)
      \<and> (\<forall>p\<in>set (hashRing (RemoveNode ch X)).
            lookup (nodeMap (RemoveNode ch X)) p = lookup (nodeMap ch) p)"
  proof
    assume d: "X = '''' \<or> distinct (filter (\<lambda>p. lookup (nodeMap ch) p = X) (hashRing ch))"
    with assms(2) have f: "hashRing (RemoveNode ch X)
        = filter (\<lambda>p. lookup (nodeMap ch) p \<noteq> X) (hashRing ch)"
      by (rule RemoveNode_ring_filter)
    have "\<forall>p\<in>set (hashRing (RemoveNode ch X)).
            lookup (nodeMap (RemoveNode ch X)) p = lookup (nodeMap ch) p"
      by (simp add: f RemoveNode_lookup_kept)
    with f show "hashRing (RemoveNode ch X)
        = filter (\<lambda>p. lookup (nodeMap ch) p \<noteq> X) (hashRing ch)
      \<and> (\<forall>p\<in>set (hashRing (RemoveNode ch X)).
            lookup (nodeMap (RemoveNode ch X)) p = lookup (nodeMap ch) p)" by simp
  qed
  show ?thesis using never next_pos surv by blast
qed

text \<open>
  On the ring of \<^verbatim>\<open>main\<close>, \<^verbatim>\<open>CellID_54321\<close> resolves to \<^verbatim>\<open>ServerB\<close>; with \<^verbatim>\<open>ServerB\<close>
  removed six positions are left and the key resolves to 2680482646, the next of them
  clockwise, which \<^verbatim>\<open>ServerA\<close> owns. On the ring of \<^verbatim>\<open>ServerA\<close> and the node with the
  empty name, removing the latter leaves the position of \<^verbatim>\<open>ServerA\<close>, which every key
  resolves to. On the ring of the node with the empty name alone, \<^verbatim>\<open>GetNode\<close> returns
  that name after the removal, and no position is left.
\<close>

theorem RemoveNode_correct_witness:
  "GetNode sha1_sample (RemoveNode demo ''ServerB'') ''CellID_54321'' \<noteq> ''ServerB''
   \<and> hashRing (RemoveNode demo ''ServerB'')
       = [14315101, 442054020, 613571882, 2680482646, 3162231355, 3791699533]
   \<and> GetNode sha1_sample demo ''CellID_54321'' = ''ServerB''
   \<and> GetNode sha1_sample (RemoveNode demo ''ServerB'') ''CellID_54321'' = ''ServerA''
   \<and> hashRing (RemoveNode mixed '''') = [3162231355]
   \<and> GetNode sha1_sample (RemoveNode mixed '''') ''CellID_12345'' = ''ServerA''
   \<and> hashRing (RemoveNode unnamed '''') = []"
proof -
  let ?after = "RemoveNode demo ''ServerB''"
  have mem: "''ServerB'' \<in> dom (actualNodes demo)" using demo_members by auto
  have nm: "''ServerB'' \<noteq> ''''" by simp
  note t = RemoveNode_correct [OF reachable_demo mem, of "''CellID_54321''"]
  have d: "distinct (filter (\<lambda>p. lookup (nodeMap demo) p = ''ServerB'') (hashRing demo))"
    by code_simp
  have f: "filter (\<lambda>p. lookup (nodeMap demo) p \<noteq> ''ServerB'') (hashRing demo)
           = [14315101, 442054020, 613571882, 2680482646, 3162231355, 3791699533]"
    by code_simp
  have never: "GetNode sha1_sample ?after ''CellID_54321'' \<noteq> ''ServerB''"
    using t nm by blast
  have ring: "hashRing ?after
           = [14315101, 442054020, 613571882, 2680482646, 3162231355, 3791699533]"
    using t d f by simp
  have keep: "\<forall>p\<in>set (hashRing ?after). lookup (nodeMap ?after) p = lookup (nodeMap demo) p"
    using t d by blast
  have s: "successor [14315101, 442054020, 613571882, 2680482646, 3162231355, 3791699533]
             (hashKey sha1_sample ''CellID_54321'') = 2680482646"
    by code_simp
  have "hashRing ?after \<noteq> []" by (simp add: ring)
  then have "GetNode sha1_sample ?after ''CellID_54321''
      = lookup (nodeMap ?after) (successor (hashRing ?after) (hashKey sha1_sample ''CellID_54321''))"
    using t by blast
  also have "\<dots> = lookup (nodeMap ?after) 2680482646" by (simp only: ring s)
  also have "\<dots> = lookup (nodeMap demo) 2680482646" using keep by (simp add: ring)
  also have "\<dots> = ''ServerA''" by code_simp
  finally have now: "GetNode sha1_sample ?after ''CellID_54321'' = ''ServerA''" .
  have before: "GetNode sha1_sample demo ''CellID_54321'' = ''ServerB''" by code_simp
  let ?rest = "RemoveNode mixed ''''"
  have mem2: "'''' \<in> dom (actualNodes mixed)"
  proof -
    have "actualNodes mixed '''' = Some True" by code_simp
    then show ?thesis by auto
  qed
  note t2 = RemoveNode_correct [OF reachable_mixed mem2, of "''CellID_12345''"]
  have f2: "filter (\<lambda>p. lookup (nodeMap mixed) p \<noteq> '''') (hashRing mixed) = [3162231355]"
    by code_simp
  have ring2: "hashRing ?rest = [3162231355]" using t2 f2 by simp
  have keep2: "\<forall>p\<in>set (hashRing ?rest). lookup (nodeMap ?rest) p = lookup (nodeMap mixed) p"
    using t2 by blast
  have s2: "successor [3162231355] (hashKey sha1_sample ''CellID_12345'') = 3162231355"
    by code_simp
  have "hashRing ?rest \<noteq> []" by (simp add: ring2)
  then have "GetNode sha1_sample ?rest ''CellID_12345''
      = lookup (nodeMap ?rest) (successor (hashRing ?rest) (hashKey sha1_sample ''CellID_12345''))"
    using t2 by blast
  also have "\<dots> = lookup (nodeMap ?rest) 3162231355" by (simp only: ring2 s2)
  also have "\<dots> = lookup (nodeMap mixed) 3162231355" using keep2 by (simp add: ring2)
  also have "\<dots> = ''ServerA''" by code_simp
  finally have now2: "GetNode sha1_sample ?rest ''CellID_12345'' = ''ServerA''" .
  have mem3: "'''' \<in> dom (actualNodes unnamed)"
  proof -
    have "actualNodes unnamed '''' = Some True" by code_simp
    then show ?thesis by auto
  qed
  note t3 = RemoveNode_correct [OF reachable_unnamed mem3, of "''CellID_12345''"]
  have "GetNode sha1_sample (RemoveNode unnamed '''') ''CellID_12345'' = ''''" by code_simp
  then have empty: "hashRing (RemoveNode unnamed '''') = []" using t3 by blast
  show ?thesis using never ring before now ring2 now2 empty by simp
qed

text \<open>
  C3 as stated fails for the node whose name is the empty string: it is a member of the
  ring it was added to, and once it is removed the ring is empty and \<^verbatim>\<open>GetNode\<close> returns
  the empty string, which is that node's name.
\<close>

theorem RemoveNode_correct_counterexample:
  "reachable sha1_sample unnamed \<and> actualNodes unnamed '''' = Some True
   \<and> GetNode sha1_sample (RemoveNode unnamed '''') ''CellID_12345'' = ''''"
proof -
  have "actualNodes unnamed '''' = Some True" by code_simp
  moreover have "GetNode sha1_sample (RemoveNode unnamed '''') ''CellID_12345'' = ''''"
    by code_simp
  ultimately show ?thesis using reachable_unnamed by simp
qed

text \<open>
  C10, as the code has it. On a reachable ring, for a node \<open>X\<close> that is not a member and
  whose virtual positions are pairwise distinct and none of them on the list, calling
  \<^verbatim>\<open>AddNode(X)\<close> and then \<^verbatim>\<open>RemoveNode(X)\<close> gives back the state before (position
  list, owner map, membership, replica count), provided \<open>X\<close> is not the empty string or
  every position on the list has an owner recorded.
\<close>

theorem AddNode_RemoveNode_roundtrip:
  assumes reach: "reachable sha1 ch"
    and fresh: "X \<notin> dom (actualNodes ch)"
    and dist: "distinct (positions sha1 X (replicas ch))"
    and disj: "set (positions sha1 X (replicas ch)) \<inter> set (hashRing ch) = {}"
    and owned: "X \<noteq> '''' \<or> set (hashRing ch) \<subseteq> dom (nodeMap ch)"
  shows "RemoveNode (AddNode sha1 ch X) X = ch"
proof -
  let ?new = "positions sha1 X (replicas ch)"
  let ?ring = "hashRing ch"
  let ?nm1 = "\<lambda>p. if p \<in> set ?new then Some X else nodeMap ch p"
  let ?ch1 = "AddNode sha1 ch X"
  have inv: "sorted ?ring" "dom (nodeMap ch) \<subseteq> set ?ring" "ran (nodeMap ch) \<subseteq> dom (actualNodes ch)"
    using reachable_inv [OF reach] by (simp_all add: ring_inv_def)
  have ch1: "hashRing ?ch1 = sort (?ring @ ?new)" "nodeMap ?ch1 = ?nm1"
    "actualNodes ?ch1 = (actualNodes ch)(X \<mapsto> True)" "replicas ?ch1 = replicas ch"
    using fresh by (simp_all add: AddNode_new)
  have mem: "X \<in> dom (actualNodes ?ch1)" by (simp add: ch1)
  have other: "lookup (nodeMap ch) p \<noteq> X" if "p \<in> set ?ring" for p
  proof (cases "nodeMap ch p")
    case None
    then have "p \<notin> dom (nodeMap ch)" by auto
    then have "X \<noteq> ''''" using owned that by auto
    then show ?thesis using None by (simp add: lookup_def)
  next
    case (Some Y)
    then have "Y \<in> dom (actualNodes ch)" using inv(3) by (auto simp: ran_def)
    then have "Y \<noteq> X" using fresh by auto
    then show ?thesis using Some by (simp add: lookup_def)
  qed
  have own1: "(lookup ?nm1 p = X) = (p \<in> set ?new)" if "p \<in> set (?ring @ ?new)" for p
    using that other [of p] by (auto simp: lookup_def)
  have f_eq: "filter (\<lambda>h. lookup ?nm1 h = X) (sort (?ring @ ?new))
            = filter (\<lambda>h. h \<in> set ?new) (sort (?ring @ ?new))"
    by (rule filter_cong) (simp_all add: own1)
  have f_ne: "filter (\<lambda>h. lookup ?nm1 h \<noteq> X) (sort (?ring @ ?new))
            = filter (\<lambda>h. h \<notin> set ?new) (sort (?ring @ ?new))"
    by (rule filter_cong) (simp_all add: own1)
  have "filter (\<lambda>h. h \<in> set ?new) ?ring = []"
    using disj by (auto simp: filter_empty_conv)
  then have "mset (filter (\<lambda>h. h \<in> set ?new) (sort (?ring @ ?new))) = mset ?new"
    by (simp add: filter_sort)
  then have "distinct (filter (\<lambda>h. h \<in> set ?new) (sort (?ring @ ?new)))"
    using dist by (metis mset_eq_imp_distinct_iff)
  then have "X = '''' \<or> distinct (filter (\<lambda>h. lookup (nodeMap ?ch1) h = X) (hashRing ?ch1))"
    by (simp add: ch1 f_eq)
  with mem have "hashRing (RemoveNode ?ch1 X)
      = filter (\<lambda>h. lookup (nodeMap ?ch1) h \<noteq> X) (hashRing ?ch1)"
    by (rule RemoveNode_ring_filter)
  also have "\<dots> = filter (\<lambda>h. h \<notin> set ?new) (sort (?ring @ ?new))"
    by (simp only: ch1 f_ne)
  also have "\<dots> = sort (filter (\<lambda>h. h \<notin> set ?new) (?ring @ ?new))"
    by (simp only: filter_sort)
  also have "filter (\<lambda>h. h \<notin> set ?new) (?ring @ ?new) = ?ring"
    using disj by (auto simp: filter_id_conv filter_empty_conv)
  also have "sort ?ring = ?ring" using inv(1) by (rule sorted_sort_id)
  finally have ring: "hashRing (RemoveNode ?ch1 X) = ?ring" .
  have nm: "nodeMap (RemoveNode ?ch1 X) = nodeMap ch"
  proof
    fix h
    show "nodeMap (RemoveNode ?ch1 X) h = nodeMap ch h"
    proof (cases "h \<in> set ?new")
      case True
      then have "h \<notin> set ?ring" using disj by auto
      then have "nodeMap ch h = None" using inv(2) by auto
      then show ?thesis using True by (simp add: RemoveNode_member [OF mem] ch1 lookup_def)
    next
      case False
      then show ?thesis
        using other [of h] by (auto simp: RemoveNode_member [OF mem] ch1 lookup_def)
    qed
  qed
  have an: "actualNodes (RemoveNode ?ch1 X) = actualNodes ch"
    using fresh by (auto simp: RemoveNode_member [OF mem] ch1 fun_eq_iff)
  have rp: "replicas (RemoveNode ?ch1 X) = replicas ch"
    by (simp add: RemoveNode_member [OF mem] ch1)
  have mr: "ConsistentHash.more (RemoveNode ?ch1 X) = ConsistentHash.more ch"
    using fresh by (simp add: RemoveNode_member [OF mem] AddNode_new)
  show ?thesis
    using ring nm an rp mr by (intro ConsistentHash.equality)
qed

theorem AddNode_RemoveNode_roundtrip_witness:
  "RemoveNode (AddNode sha1_sample (AddNode sha1_sample (NewConsistentHash 3) ''ServerA'')
     ''ServerB'') ''ServerB'' = AddNode sha1_sample (NewConsistentHash 3) ''ServerA''"
proof -
  let ?c = "AddNode sha1_sample (NewConsistentHash 3) ''ServerA''"
  have r: "reachable sha1_sample ?c" by (intro reachable.intros)
  have fresh: "''ServerB'' \<notin> dom (actualNodes ?c)"
  proof -
    have "actualNodes ?c ''ServerB'' = None" by code_simp
    then show ?thesis by auto
  qed
  have rp: "replicas ?c = 3" by code_simp
  have p: "positions sha1_sample ''ServerB'' 3 = [2433757126, 1354652122, 3642796969]"
    by code_simp
  have h: "hashRing ?c = [14315101, 2680482646, 3162231355]" by code_simp
  have d: "distinct (positions sha1_sample ''ServerB'' (replicas ?c))" by (simp add: rp p)
  have i: "set (positions sha1_sample ''ServerB'' (replicas ?c)) \<inter> set (hashRing ?c) = {}"
    by (simp add: rp p h)
  show ?thesis
    by (rule AddNode_RemoveNode_roundtrip [OF r fresh d i]) simp
qed

text \<open>
  C10 as stated fails on a ring that holds a position with no owner recorded, for the node
  whose name is the empty string. Such a ring is reachable: \<^verbatim>\<open>n58680\<close> and \<^verbatim>\<open>n73434\<close>
  share the position 2605328136, and removing \<^verbatim>\<open>n73434\<close> deletes the owner entry at the
  first copy and keeps the second copy on the list. The empty name is no member then, its
  position 3059261382 is not on the list, and adding and removing it takes the position
  2605328136 away as well.
\<close>

theorem AddNode_RemoveNode_roundtrip_counterexample:
  "reachable sha1_sample orphaned
   \<and> actualNodes orphaned '''' = None
   \<and> hashRing orphaned = [2605328136]
   \<and> positions sha1_sample '''' (replicas orphaned) = [3059261382]
   \<and> hashRing (RemoveNode (AddNode sha1_sample orphaned '''') '''') = []
   \<and> RemoveNode (AddNode sha1_sample orphaned '''') '''' \<noteq> orphaned"
proof -
  have a: "actualNodes orphaned '''' = None" by code_simp
  have h: "hashRing orphaned = [2605328136]" by code_simp
  have p: "positions sha1_sample '''' (replicas orphaned) = [3059261382]" by code_simp
  have e: "hashRing (RemoveNode (AddNode sha1_sample orphaned '''') '''') = []" by code_simp
  have "RemoveNode (AddNode sha1_sample orphaned '''') '''' \<noteq> orphaned"
    using h e by auto
  then show ?thesis using reachable_orphaned a h p e by simp
qed

section \<open>The hash function\<close>

text \<open>
  C8. \<^verbatim>\<open>hashKey\<close> of a string is the number that the first four bytes of its digest
  spell in base 256, most significant byte first. The positions that \<^verbatim>\<open>AddNode\<close> puts on
  the ring are values of \<^verbatim>\<open>hashKey\<close> (of the node name followed by a decimal index), and
  \<^verbatim>\<open>GetNode\<close> places the key on the ring by \<^verbatim>\<open>hashKey\<close> as well: on a reachable ring
  with a position it returns the owner recorded for the clockwise successor of the key's
  hash.
\<close>

theorem hashKey_big_endian:
  "(sha1 key = b0 # b1 # b2 # b3 # rest \<longrightarrow>
      unat (hashKey sha1 key) = unat b0 * 2 ^ 24 + unat b1 * 2 ^ 16 + unat b2 * 2 ^ 8 + unat b3)
   \<and> (node \<notin> dom (actualNodes ch) \<longrightarrow>
        set (hashRing (AddNode sha1 ch node))
          = set (hashRing ch) \<union> (\<lambda>i. hashKey sha1 (node @ Itoa i)) ` {0..replicas ch - 1})
   \<and> (reachable sha1 ch \<and> hashRing ch \<noteq> [] \<longrightarrow>
        GetNode sha1 ch key' = lookup (nodeMap ch) (successor (hashRing ch) (hashKey sha1 key')))"
proof -
  have bytes: "sha1 key = b0 # b1 # b2 # b3 # rest \<longrightarrow>
      unat (hashKey sha1 key) = unat b0 * 2 ^ 24 + unat b1 * 2 ^ 16 + unat b2 * 2 ^ 8 + unat b3"
    using hashKey_bytes by blast
  have nodes: "node \<notin> dom (actualNodes ch) \<longrightarrow>
      set (hashRing (AddNode sha1 ch node))
        = set (hashRing ch) \<union> (\<lambda>i. hashKey sha1 (node @ Itoa i)) ` {0..replicas ch - 1}"
    by (simp add: AddNode_new positions_def)
  have keys: "reachable sha1 ch \<and> hashRing ch \<noteq> [] \<longrightarrow>
      GetNode sha1 ch key' = lookup (nodeMap ch) (successor (hashRing ch) (hashKey sha1 key'))"
    using reachable_sorted GetNode_sorted by blast
  show ?thesis using bytes nodes keys by blast
qed

text \<open>
  The digest of \<^verbatim>\<open>ServerA0\<close> starts with the bytes BC 7B D2 3B, and the hash is
  3162231355. The new ring with three replicas holds, after \<^verbatim>\<open>ServerA\<close> is added, the
  hashes of \<^verbatim>\<open>ServerA0\<close>, \<^verbatim>\<open>ServerA1\<close> and \<^verbatim>\<open>ServerA2\<close>. On the ring of \<^verbatim>\<open>main\<close>, the
  key \<^verbatim>\<open>CellID_67890\<close> has the hash 341085917, whose successor 442054020 is a position
  of \<^verbatim>\<open>ServerC\<close>.
\<close>

theorem hashKey_big_endian_witness:
  "unat (hashKey sha1_sample ''ServerA0'') = 188 * 2 ^ 24 + 123 * 2 ^ 16 + 210 * 2 ^ 8 + 59
   \<and> set (hashRing (AddNode sha1_sample (NewConsistentHash 3) ''ServerA''))
       = {hashKey sha1_sample ''ServerA0'', hashKey sha1_sample ''ServerA1'',
          hashKey sha1_sample ''ServerA2''}
   \<and> hashKey sha1_sample ''CellID_67890'' = 341085917
   \<and> successor (hashRing demo) 341085917 = 442054020
   \<and> GetNode sha1_sample demo ''CellID_67890'' = ''ServerC''"
proof -
  let ?rest = "[0x31, 0x22, 0x0E, 0xB7, 0x27, 0xD0, 0xC5, 0x1E, 0x77, 0x8B, 0xF9, 0x85, 0x48, 0x3A,
                0x37, 0xDB] :: byte list"
  note t1 = hashKey_big_endian [of sha1_sample "''ServerA0''" "0xBC" "0x7B" "0xD2" "0x3B" ?rest
      "''ServerA''" "NewConsistentHash 3" "''CellID_67890''"]
  note t2 = hashKey_big_endian [of sha1_sample "''ServerA0''" "0xBC" "0x7B" "0xD2" "0x3B" ?rest
      "''ServerA''" demo "''CellID_67890''"]
  have d: "sha1_sample ''ServerA0'' = 0xBC # 0x7B # 0xD2 # 0x3B # ?rest"
    by (simp add: sha1_sample_def)
  have u: "unat (hashKey sha1_sample ''ServerA0'')
           = 188 * 2 ^ 24 + 123 * 2 ^ 16 + 210 * 2 ^ 8 + 59"
    using t1 d by simp
  have i: "{0..(2::int)} = {0, 1, 2}" by auto
  have a: "Itoa 0 = ''0''" "Itoa 1 = ''1''" "Itoa 2 = ''2''"
    by (simp_all add: Itoa_def utoa.simps digit_def)
  have s: "set (hashRing (AddNode sha1_sample (NewConsistentHash 3) ''ServerA''))
       = {hashKey sha1_sample ''ServerA0'', hashKey sha1_sample ''ServerA1'',
          hashKey sha1_sample ''ServerA2''}"
    using t1 by (simp add: NewConsistentHash_def i a)
  have h: "hashKey sha1_sample ''CellID_67890'' = 341085917"
    by (simp add: hashKey_def sha1_sample_def)
  have c: "successor (hashRing demo) 341085917 = 442054020" by code_simp
  have o: "lookup (nodeMap demo) 442054020 = ''ServerC''" by code_simp
  have ne: "hashRing demo \<noteq> []" by (simp add: demo_ring)
  have "GetNode sha1_sample demo ''CellID_67890''
        = lookup (nodeMap demo) (successor (hashRing demo) (hashKey sha1_sample ''CellID_67890''))"
    using t2 reachable_demo ne by blast
  then have g: "GetNode sha1_sample demo ''CellID_67890'' = ''ServerC''"
    by (simp only: h c o)
  show ?thesis using u s h c g by simp
qed

end
